theory Spec2Isabelle
  imports Main "HOL-Library.Sublist"
begin

section \<open>Python text primitives used by the parser\<close>

text \<open>
  Text is a \<^typ>\<open>string\<close>, one \<^typ>\<open>char\<close> per code point; the model covers the code
  points below 256. On these, Python's \<^verbatim>\<open>\d\<close> is the ten ASCII digits, \<^verbatim>\<open>\s\<close> and
  \<^verbatim>\<open>str.strip\<close> use the whitespace set below, and \<^verbatim>\<open>str.lower\<close> moves A-Z and the
  upper-case letters of Latin-1 by 32. Printing to the terminal is not modelled.
\<close>

definition is_digit :: "char \<Rightarrow> bool" where
  "is_digit c = (c \<in> set ''0123456789'')"

definition is_space :: "char \<Rightarrow> bool" where
  "is_space c =
     (c \<in> set [CHR 0x09, CHR 0x0A, CHR 0x0B, CHR 0x0C, CHR 0x0D, CHR 0x1C, CHR 0x1D,
                CHR 0x1E, CHR 0x1F, CHR 0x20, CHR 0x85, CHR 0xA0])"

definition lower_char :: "char \<Rightarrow> char" where
  "lower_char c =
     (let n = (of_char c :: nat)
      in if (65 \<le> n \<and> n \<le> 90) \<or> (192 \<le> n \<and> n \<le> 222 \<and> n \<noteq> 215)
         then char_of (n + 32) else c)"

definition py_lower :: "string \<Rightarrow> string" where
  "py_lower s = map lower_char s"

definition py_strip :: "string \<Rightarrow> string" where
  "py_strip s = rev (dropWhile is_space (rev (dropWhile is_space s)))"

text \<open>\<^verbatim>\<open>pat in s\<close>: \<open>pat\<close> occurs in \<open>s\<close> as a contiguous substring.\<close>

fun py_in :: "string \<Rightarrow> string \<Rightarrow> bool" where
  "py_in pat [] = (pat = [])"
| "py_in pat (c # cs) = (prefix pat (c # cs) \<or> py_in pat cs)"

text \<open>
  \<^verbatim>\<open>s.split(sep)\<close>, and \<^verbatim>\<open>re.split\<close> with a pattern of literal characters: the
  text is cut at the occurrences of \<open>sep\<close>, found from left to right without overlap.
  The source only splits at the constants \<^verbatim>\<open>'\n'\<close>, \<^verbatim>\<open>'.'\<close> and
  \<^verbatim>\<open>'Nmap scan report for '\<close>; with an empty separator nothing is cut here.
\<close>

function py_split :: "string \<Rightarrow> string \<Rightarrow> string list" where
  "py_split sep s =
     (if sep \<noteq> [] \<and> prefix sep s then [] # py_split sep (drop (length sep) s)
      else case s of
             [] \<Rightarrow> [[]]
           | c # cs \<Rightarrow> (case py_split sep cs of
                         [] \<Rightarrow> [[c]]
                       | w # ws \<Rightarrow> (c # w) # ws))"
  by pat_completeness auto
termination
  by (relation "measure (\<lambda>(sep, s). length s)") (auto simp: prefix_def)

declare py_split.simps [simp del]

fun py_join :: "string \<Rightarrow> string list \<Rightarrow> string" where
  "py_join sep [] = []"
| "py_join sep [x] = x"
| "py_join sep (x # y # ys) = x @ sep @ py_join sep (y # ys)"

text \<open>\<^verbatim>\<open>str(n)\<close> of an integer, as the f-strings of the source render it.\<close>

function str_digits :: "int \<Rightarrow> string" where
  "str_digits n =
     (if n < 10 then [''0123456789'' ! nat n]
      else str_digits (n div 10) @ [''0123456789'' ! nat (n mod 10)])"
  by pat_completeness auto
termination
  by (relation "measure nat") auto

declare str_digits.simps [simp del]

definition py_str :: "int \<Rightarrow> string" where
  "py_str i = (if i < 0 then CHR ''-'' # str_digits (- i) else str_digits i)"

section \<open>Regular expressions\<close>

text \<open>
  The patterns of the source are sequences of single characters and of greedy
  repetitions of a character class. A match is found as Python's backtracking engine
  finds it: a repetition first takes as many characters as it can and gives them
  back one at a time until the rest of the pattern matches. \<open>rx_match\<close> returns
  the text matched by each item of the pattern and the text left.
\<close>

datatype rx = One "char \<Rightarrow> bool" | Star "char \<Rightarrow> bool" | Plus "char \<Rightarrow> bool"

fun backtrack :: "(nat \<Rightarrow> 'a option) \<Rightarrow> nat \<Rightarrow> nat \<Rightarrow> 'a option" where
  "backtrack f lo n =
     (if n < lo then None
      else case f n of
             Some r \<Rightarrow> Some r
           | None \<Rightarrow> (if n = 0 then None else backtrack f lo (n - 1)))"

declare backtrack.simps [simp del]

fun rx_match :: "rx list \<Rightarrow> string \<Rightarrow> (string list \<times> string) option" where
  "rx_match [] s = Some ([], s)"
| "rx_match (One P # rs) s =
     (case s of
        [] \<Rightarrow> None
      | c # cs \<Rightarrow>
          if P c
          then (case rx_match rs cs of
                  None \<Rightarrow> None
                | Some (segs, rest) \<Rightarrow> Some ([c] # segs, rest))
          else None)"
| "rx_match (Star P # rs) s =
     backtrack
       (\<lambda>n. case rx_match rs (drop n s) of
              None \<Rightarrow> None
            | Some (segs, rest) \<Rightarrow> Some (take n s # segs, rest))
       0 (length (takeWhile P s))"
| "rx_match (Plus P # rs) s =
     backtrack
       (\<lambda>n. case rx_match rs (drop n s) of
              None \<Rightarrow> None
            | Some (segs, rest) \<Rightarrow> Some (take n s # segs, rest))
       1 (length (takeWhile P s))"

text \<open>What an item of a pattern can match: the meaning of the three constructors.\<close>

fun item_ok :: "rx \<Rightarrow> string \<Rightarrow> bool" where
  "item_ok (One P) seg = (length seg = 1 \<and> list_all P seg)"
| "item_ok (Star P) seg = list_all P seg"
| "item_ok (Plus P) seg = (seg \<noteq> [] \<and> list_all P seg)"

text \<open>
  \<^verbatim>\<open>re.search\<close>: the match at the leftmost position that has one. Every pattern of
  the source has one group, which ends the pattern: \<open>pre\<close> is the part before the
  group, \<open>grp\<close> the group, and the result is \<^verbatim>\<open>group(1)\<close>.
\<close>

fun rx_search :: "rx list \<Rightarrow> string \<Rightarrow> string list option" where
  "rx_search p [] = map_option fst (rx_match p [])"
| "rx_search p (c # cs) =
     (case rx_match p (c # cs) of
        Some (segs, rest) \<Rightarrow> Some segs
      | None \<Rightarrow> rx_search p cs)"

definition group1 :: "rx list \<Rightarrow> string list \<Rightarrow> string" where
  "group1 pre segs = concat (drop (length pre) segs)"

definition re_search :: "rx list \<Rightarrow> rx list \<Rightarrow> string \<Rightarrow> string option" where
  "re_search pre grp s = map_option (group1 pre) (rx_search (pre @ grp) s)"

text \<open>A pattern that starts with \<^verbatim>\<open>^\<close> (no MULTILINE flag) matches at position 0 only.\<close>

definition re_search_anchored :: "rx list \<Rightarrow> rx list \<Rightarrow> string \<Rightarrow> string option" where
  "re_search_anchored pre grp s =
     map_option (\<lambda>(segs, rest). group1 pre segs) (rx_match (pre @ grp) s)"

text \<open>
  \<^verbatim>\<open>re.findall\<close>: the groups of all matches, from left to right; the search goes
  on where the last match ended (one character further after an empty match).
\<close>

function re_findall :: "rx list \<Rightarrow> rx list \<Rightarrow> string \<Rightarrow> string list" where
  "re_findall pre grp s =
     (case rx_match (pre @ grp) s of
        Some (segs, rest) \<Rightarrow>
          group1 pre segs #
            (if length rest < length s then re_findall pre grp rest
             else case s of [] \<Rightarrow> [] | c # cs \<Rightarrow> re_findall pre grp cs)
      | None \<Rightarrow> (case s of [] \<Rightarrow> [] | c # cs \<Rightarrow> re_findall pre grp cs))"
  by pat_completeness auto
termination
  by (relation "measure (\<lambda>(pre, grp, s). length s)") auto

declare re_findall.simps [simp del]

text \<open>A literal of a pattern: case-insensitive under \<^verbatim>\<open>re.IGNORECASE\<close>.\<close>

definition ci_lit :: "string \<Rightarrow> rx list" where
  "ci_lit s = map (\<lambda>c. One (\<lambda>x. lower_char x = lower_char c)) s"

definition lit :: "string \<Rightarrow> rx list" where
  "lit s = map (\<lambda>c. One (\<lambda>x. x = c)) s"

text \<open>The character classes of the patterns.\<close>

definition name_char :: "char \<Rightarrow> bool" where
  \<comment> \<open>\<^verbatim>\<open>[a-zA-Z0-9\-]\<close>\<close>
  "name_char c =
     (c \<in> set ''abcdefghijklmnopqrstuvwxyzABCDEFGHIJKLMNOPQRSTUVWXYZ0123456789-'')"

definition domain_char :: "char \<Rightarrow> bool" where
  \<comment> \<open>\<^verbatim>\<open>[a-zA-Z0-9\-\.]\<close>\<close>
  "domain_char c = (name_char c \<or> c = CHR ''.'')"

definition colon_or_space :: "char \<Rightarrow> bool" where
  \<comment> \<open>\<^verbatim>\<open>[:\s]\<close>\<close>
  "colon_or_space c = (c = CHR '':'' \<or> is_space c)"

definition not_newline :: "char \<Rightarrow> bool" where
  \<comment> \<open>\<^verbatim>\<open>.\<close> and \<^verbatim>\<open>[^\n]\<close>\<close>
  "not_newline c = (c \<noteq> CHR ''\<newline>'')"

section \<open>The scan report parser\<close>

datatype 'a outcome = Returned 'a | Raised string

record DomainController =
  ip :: string
  hostname :: string
  domain :: "string option"
  netbios :: "string option"
  ports :: "int list"
  services :: "string list"

record NmapParser =
  domain_controllers :: "DomainController list"
  domain_names :: "string set"
  netbios_domains :: "string set"
  total_hosts :: int
  parse_errors :: "string list"

definition AD_PORTS :: "(int \<times> string) list" where
  "AD_PORTS =
     [(88, ''Kerberos''), (389, ''LDAP''), (636, ''LDAPS''), (445, ''SMB''),
      (3268, ''Global Catalog''), (3269, ''Global Catalog SSL''), (53, ''DNS''),
      (135, ''RPC'')]"

definition new_parser :: NmapParser where
  "new_parser =
     \<lparr>domain_controllers = [], domain_names = {}, netbios_domains = {},
      total_hosts = 0, parse_errors = []\<rparr>"

subsection \<open>Port detection and classification\<close>

text \<open>The loop of \<^verbatim>\<open>_check_domain_controller\<close> over the items of the port table.\<close>

fun scan_ports :: "(int \<times> string) list \<Rightarrow> string \<Rightarrow> int list \<Rightarrow> string list
    \<Rightarrow> int list \<times> string list" where
  "scan_ports [] block_lower found_ports found_services = (found_ports, found_services)"
| "scan_ports ((port, service) # items) block_lower found_ports found_services =
     (if py_in (py_str port @ ''/tcp'') block_lower
      then scan_ports items block_lower (found_ports @ [port]) (found_services @ [service])
      else scan_ports items block_lower found_ports found_services)"

definition check_domain_controller :: "string \<Rightarrow> bool \<times> int list \<times> string list" where
  "check_domain_controller block =
     (let block_lower = py_lower block;
          (found_ports, found_services) = scan_ports AD_PORTS block_lower [] [];
          has_kerberos = (88 \<in> set found_ports);
          has_ldap = (389 \<in> set found_ports \<or> 636 \<in> set found_ports);
          is_dc = (has_kerberos \<and> has_ldap)
      in (is_dc, found_ports, found_services))"

subsection \<open>Identity extraction\<close>

definition extract_domain :: "string \<Rightarrow> string option" where
  "extract_domain block =
     (case re_search (ci_lit ''Domain:'' @ [Star is_space]) [Plus domain_char] block of
        Some g \<Rightarrow> Some (py_strip g)
      | None \<Rightarrow>
     (case (case re_search (ci_lit ''defaultNamingContext'' @ [Plus colon_or_space])
                  [Plus (\<lambda>c. c \<noteq> CHR ''\<newline>'' \<and> c \<noteq> CHR '','')] block of
              Some g \<Rightarrow>
                (let dn = py_strip g;
                     dc_parts = re_findall (ci_lit ''DC='') [Plus (\<lambda>c. c \<noteq> CHR '','')] dn
                 in if dc_parts \<noteq> [] then Some (py_join ''.'' dc_parts) else None)
            | None \<Rightarrow> None) of
        Some d \<Rightarrow> Some d
      | None \<Rightarrow>
     (case (case re_search (ci_lit ''dns_computer_name:'' @ [Star is_space])
                  [Plus not_newline] block of
              Some g \<Rightarrow>
                (let fqdn = py_strip g
                 in if CHR ''.'' \<in> set fqdn then Some (py_join ''.'' (tl (py_split ''.'' fqdn)))
                    else None)
            | None \<Rightarrow> None) of
        Some d \<Rightarrow> Some d
      | None \<Rightarrow>
     (case re_search (ci_lit ''forest'' @ [Plus colon_or_space]) [Plus domain_char] block of
        Some g \<Rightarrow> Some (py_strip g)
      | None \<Rightarrow> None))))"

text \<open>
  The four methods of \<^verbatim>\<open>_extract_domain\<close>, each on its own, and the specification's
  reading of the function: an ordered list of strategies, the first that gives a value
  wins.
\<close>

definition domain_label_strategy :: "string \<Rightarrow> string option" where
  "domain_label_strategy block =
     map_option py_strip
       (re_search (ci_lit ''Domain:'' @ [Star is_space]) [Plus domain_char] block)"

definition naming_context_strategy :: "string \<Rightarrow> string option" where
  "naming_context_strategy block =
     (case re_search (ci_lit ''defaultNamingContext'' @ [Plus colon_or_space])
             [Plus (\<lambda>c. c \<noteq> CHR ''\<newline>'' \<and> c \<noteq> CHR '','')] block of
        None \<Rightarrow> None
      | Some g \<Rightarrow>
          (let dc_parts = re_findall (ci_lit ''DC='') [Plus (\<lambda>c. c \<noteq> CHR '','')] (py_strip g)
           in if dc_parts \<noteq> [] then Some (py_join ''.'' dc_parts) else None))"

definition dns_computer_name_strategy :: "string \<Rightarrow> string option" where
  "dns_computer_name_strategy block =
     (case re_search (ci_lit ''dns_computer_name:'' @ [Star is_space]) [Plus not_newline] block of
        None \<Rightarrow> None
      | Some g \<Rightarrow>
          if CHR ''.'' \<in> set (py_strip g)
          then Some (py_join ''.'' (tl (py_split ''.'' (py_strip g)))) else None)"

definition forest_strategy :: "string \<Rightarrow> string option" where
  "forest_strategy block =
     map_option py_strip
       (re_search (ci_lit ''forest'' @ [Plus colon_or_space]) [Plus domain_char] block)"

fun first_match :: "(string \<Rightarrow> string option) list \<Rightarrow> string \<Rightarrow> string option" where
  "first_match [] block = None"
| "first_match (strategy # strategies) block =
     (case strategy block of
        Some v \<Rightarrow> Some v
      | None \<Rightarrow> first_match strategies block)"

definition upper_char :: "char \<Rightarrow> char" where
  \<comment> \<open>on the characters of \<^verbatim>\<open>[a-zA-Z0-9\-]\<close>, the only ones it is applied to\<close>
  "upper_char c =
     (let n = (of_char c :: nat)
      in if 97 \<le> n \<and> n \<le> 122 then char_of (n - 32) else c)"

definition py_upper :: "string \<Rightarrow> string" where
  "py_upper s = map upper_char s"

definition extract_netbios :: "string \<Rightarrow> string option" where
  "extract_netbios block =
     (case re_search (ci_lit ''NetBIOS'' @ [Star not_newline] @ ci_lit ''Domain:'' @ [Star is_space])
             [Plus name_char] block of
        Some g \<Rightarrow> Some (py_upper (py_strip g))
      | None \<Rightarrow>
     (case re_search (ci_lit ''NetBIOS'' @ [Star not_newline] @ ci_lit ''Computer''
                        @ [Star not_newline] @ lit '':'' @ [Star is_space])
             [Plus name_char] block of
        Some g \<Rightarrow> Some (py_upper (py_strip g))
      | None \<Rightarrow> None))"

subsection \<open>One host block\<close>

definition ip_pattern :: "rx list" where
  \<comment> \<open>\<^verbatim>\<open>(\d+\.\d+\.\d+\.\d+)\<close>\<close>
  "ip_pattern =
     [Plus is_digit, One (\<lambda>c. c = CHR ''.''), Plus is_digit, One (\<lambda>c. c = CHR ''.''),
      Plus is_digit, One (\<lambda>c. c = CHR ''.''), Plus is_digit]"

definition header_line :: "string \<Rightarrow> string" where
  \<comment> \<open>\<^verbatim>\<open>host_block.split('\n')[0]\<close>\<close>
  "header_line host_block = hd (py_split ''\<newline>'' host_block)"

definition header_ip :: "string \<Rightarrow> string option" where
  "header_ip first_line = re_search [] ip_pattern first_line"

definition header_hostname :: "string \<Rightarrow> string option \<Rightarrow> string option" where
  "header_hostname first_line ip_opt =
     (case re_search_anchored [] [Plus (\<lambda>c. c \<noteq> CHR ''('')] first_line of
        Some g \<Rightarrow> Some (py_strip g)
      | None \<Rightarrow> ip_opt)"

text \<open>
  \<^verbatim>\<open>_parse_host\<close>. It returns the record (or \<^verbatim>\<open>None\<close>) and the parser with the
  domain and NetBIOS names it added; \<^verbatim>\<open>if domain:\<close> is false for \<^verbatim>\<open>None\<close> and for the
  empty string.
\<close>

definition parse_host :: "NmapParser \<Rightarrow> string
    \<Rightarrow> DomainController option outcome \<times> NmapParser" where
  "parse_host p host_block =
     (case py_split ''\<newline>'' host_block of
        [] \<Rightarrow> (Raised ''list index out of range'', p)
      | first_line # other_lines \<Rightarrow>
          (let ip_opt = header_ip first_line;
               hostname_opt = header_hostname first_line ip_opt
           in case ip_opt of
                None \<Rightarrow> (Returned None, p)
              | Some ip_v \<Rightarrow>
                  if ip_v = [] then (Returned None, p)
                  else
                    (case check_domain_controller host_block of
                       (is_dc, found_ports, found_services) \<Rightarrow>
                         if \<not> is_dc then (Returned None, p)
                         else
                           (let domain_v = extract_domain host_block;
                                netbios_v = extract_netbios host_block;
                                dc = \<lparr>ip = ip_v,
                                      hostname = (case hostname_opt of
                                                    Some h \<Rightarrow> h
                                                  | None \<Rightarrow> ip_v),
                                      domain = domain_v, netbios = netbios_v,
                                      ports = found_ports, services = found_services\<rparr>;
                                p1 = (case domain_v of
                                        None \<Rightarrow> p
                                      | Some d \<Rightarrow>
                                          if d \<noteq> [] then p\<lparr>domain_names := insert d (domain_names p)\<rparr>
                                          else p);
                                p2 = (case netbios_v of
                                        None \<Rightarrow> p1
                                      | Some n \<Rightarrow>
                                          if n \<noteq> []
                                          then p1\<lparr>netbios_domains := insert n (netbios_domains p1)\<rparr>
                                          else p1)
                            in (Returned (Some dc), p2)))))"

subsection \<open>The whole report\<close>

text \<open>
  The loop of \<^verbatim>\<open>parse\<close> over the host blocks, \<open>idx\<close> counting from 1. Its handler
  catches whatever the call for a block raises, so the loop is written over any function
  \<open>ph\<close> processing one block; \<open>parse_host\<close> is the one the program runs.
\<close>

type_synonym host_parser =
  "NmapParser \<Rightarrow> string \<Rightarrow> DomainController option outcome \<times> NmapParser"

fun process_hosts :: "host_parser \<Rightarrow> int \<Rightarrow> string list \<Rightarrow> NmapParser \<Rightarrow> NmapParser" where
  "process_hosts ph idx [] p = p"
| "process_hosts ph idx (host_block # blocks) p =
     (case ph p host_block of
        (Returned None, p') \<Rightarrow> process_hosts ph (idx + 1) blocks p'
      | (Returned (Some dc), p') \<Rightarrow>
          process_hosts ph (idx + 1) blocks
            (p'\<lparr>domain_controllers := domain_controllers p' @ [dc]\<rparr>)
      | (Raised msg, p') \<Rightarrow>
          process_hosts ph (idx + 1) blocks
            (p'\<lparr>parse_errors := parse_errors p' @ [''Host '' @ py_str idx @ '': '' @ msg]\<rparr>))"

definition marker :: string where
  "marker = ''Nmap scan report for ''"

text \<open>
  \<^verbatim>\<open>parse\<close>: \<open>rd\<close> is what reading the file gave, the content or the exception it
  raised.
\<close>

definition parse_with :: "host_parser \<Rightarrow> string outcome \<Rightarrow> NmapParser \<Rightarrow> bool \<times> NmapParser" where
  "parse_with ph rd p =
     (case rd of
        Raised e \<Rightarrow> (False, p)
      | Returned content \<Rightarrow>
          (let hosts = py_split marker content;
               p1 = p\<lparr>total_hosts := int (length hosts) - 1\<rparr>
           in (True, process_hosts ph 1 (tl hosts) p1)))"

definition parse :: "string outcome \<Rightarrow> NmapParser \<Rightarrow> bool \<times> NmapParser" where
  "parse rd p = parse_with parse_host rd p"

section \<open>Facts about the text primitives and the matcher\<close>

text \<open>The two case mappings on the bits of a character, for evaluation.\<close>

lemma lower_char_bits [code]:
  "lower_char (Char b0 b1 b2 b3 b4 b5 b6 b7) =
     (if b6 \<and> \<not> b5 \<and>
         (if b7 then \<not> (b0 \<and> b1 \<and> b2 \<and> b4)
          else (b0 \<or> b1 \<or> b2 \<or> b3 \<or> b4) \<and> \<not> (b4 \<and> b3 \<and> (b2 \<or> (b1 \<and> b0))))
      then Char b0 b1 b2 b3 b4 True b6 b7 else Char b0 b1 b2 b3 b4 b5 b6 b7)"
  by (cases b0; cases b1; cases b2; cases b3; cases b4; cases b5; cases b6; cases b7;
      simp add: lower_char_def char_of_def bit_Suc_0_iff)

lemma upper_char_bits [code]:
  "upper_char (Char b0 b1 b2 b3 b4 b5 b6 b7) =
     (if \<not> b7 \<and> b6 \<and> b5 \<and> (b0 \<or> b1 \<or> b2 \<or> b3 \<or> b4) \<and>
         \<not> (b4 \<and> b3 \<and> (b2 \<or> (b1 \<and> b0)))
      then Char b0 b1 b2 b3 b4 False b6 b7 else Char b0 b1 b2 b3 b4 b5 b6 b7)"
  by (cases b0; cases b1; cases b2; cases b3; cases b4; cases b5; cases b6; cases b7;
      simp add: upper_char_def char_of_def bit_Suc_0_iff)

lemma py_in_iff: "py_in pat s \<longleftrightarrow> (\<exists>ps ss. s = ps @ pat @ ss)"
proof (induction s)
  case Nil
  then show ?case by auto
next
  case (Cons c cs)
  show ?case
  proof
    assume "py_in pat (c # cs)"
    then consider "prefix pat (c # cs)" | "py_in pat cs" by auto
    then show "\<exists>ps ss. c # cs = ps @ pat @ ss"
    proof cases
      case 1
      then obtain ss where "c # cs = pat @ ss" by (auto simp: prefix_def)
      then have "c # cs = [] @ pat @ ss" by simp
      then show ?thesis by blast
    next
      case 2
      with Cons.IH obtain ps ss where "cs = ps @ pat @ ss" by blast
      then have "c # cs = (c # ps) @ pat @ ss" by simp
      then show ?thesis by blast
    qed
  next
    assume "\<exists>ps ss. c # cs = ps @ pat @ ss"
    then obtain ps ss where eq: "c # cs = ps @ pat @ ss" by blast
    show "py_in pat (c # cs)"
    proof (cases ps)
      case Nil
      with eq have "prefix pat (c # cs)" by (simp add: prefix_def)
      then show ?thesis by simp
    next
      case (Cons a as)
      with eq have "cs = as @ pat @ ss" by simp
      with Cons.IH have "py_in pat cs" by blast
      then show ?thesis by simp
    qed
  qed
qed

lemma scan_ports_filter:
  "scan_ports items bl fp fs =
     (fp @ map fst (filter (\<lambda>(port, service). py_in (py_str port @ ''/tcp'') bl) items),
      fs @ map snd (filter (\<lambda>(port, service). py_in (py_str port @ ''/tcp'') bl) items))"
  by (induction items bl fp fs rule: scan_ports.induct) auto

lemma py_str_ports:
  "py_str 88 = ''88''" "py_str 389 = ''389''" "py_str 636 = ''636''" "py_str 445 = ''445''"
  "py_str 3268 = ''3268''" "py_str 3269 = ''3269''" "py_str 53 = ''53''" "py_str 135 = ''135''"
  by (simp_all add: py_str_def str_digits.simps)

lemma mem_filtered_ports:
  "port \<in> set (map fst (filter (\<lambda>(pt, sv). R pt) items)) \<longleftrightarrow> port \<in> fst ` set items \<and> R port"
  by (induction items) auto

lemma is_dc_iff:
  "fst (check_domain_controller block) \<longleftrightarrow>
     py_in ''88/tcp'' (py_lower block) \<and>
     (py_in ''389/tcp'' (py_lower block) \<or> py_in ''636/tcp'' (py_lower block))"
  unfolding check_domain_controller_def Let_def scan_ports_filter
  apply (simp add: mem_filtered_ports split_def del: set_map set_filter)
  apply (simp add: AD_PORTS_def py_str_ports)
  done

lemma py_split_nonempty: "py_split sep s \<noteq> []"
  by (subst py_split.simps) (auto split: list.splits)

lemma py_split_char_hd: "hd (py_split [c] s) = takeWhile (\<lambda>x. x \<noteq> c) s"
proof (induction s)
  case Nil
  show ?case by (simp add: py_split.simps)
next
  case (Cons a s)
  show ?case
  proof (cases "a = c")
    case True
    then show ?thesis by (subst py_split.simps) simp
  next
    case False
    with Cons.IH show ?thesis
      by (subst py_split.simps) (auto split: list.splits simp: py_split_nonempty)
  qed
qed

lemma backtrack_SomeD:
  "backtrack f lo n = Some r \<Longrightarrow> \<exists>m. lo \<le> m \<and> m \<le> n \<and> f m = Some r"
proof (induction f lo n rule: backtrack.induct)
  case (1 f lo n)
  show ?case
  proof (cases "f n")
    case None
    with "1.prems" have a: "\<not> n < lo" "n \<noteq> 0" "backtrack f lo (n - 1) = Some r"
      by (auto simp: backtrack.simps [of f lo n] split: if_splits)
    with "1.IH" None obtain m where "lo \<le> m" "m \<le> n - 1" "f m = Some r" by blast
    then show ?thesis using a by (intro exI [of _ m]) auto
  next
    case (Some x)
    with "1.prems" have "\<not> n < lo" "x = r"
      by (auto simp: backtrack.simps [of f lo n] split: if_splits)
    with Some show ?thesis by (intro exI [of _ n]) auto
  qed
qed

lemma rx_match_single_Plus:
  "rx_match [Plus P] s =
     (if takeWhile P s = [] then None else Some ([takeWhile P s], dropWhile P s))"
proof (cases "takeWhile P s = []")
  case True
  then show ?thesis by (simp add: backtrack.simps)
next
  case False
  then have "0 < length (takeWhile P s)" by simp
  moreover have "take (length (takeWhile P s)) s = takeWhile P s"
    using append_eq_conv_conj [of "takeWhile P s" "dropWhile P s" s] by simp
  moreover have "drop (length (takeWhile P s)) s = dropWhile P s"
    using append_eq_conv_conj [of "takeWhile P s" "dropWhile P s" s] by simp
  ultimately show ?thesis using False by (simp add: backtrack.simps)
qed

lemma take_le_takeWhile:
  assumes "n \<le> length (takeWhile P s)"
  shows "take n s = take n (takeWhile P s)"
proof -
  have "take n s = take n (takeWhile P s @ dropWhile P s)" by simp
  also have "\<dots> = take n (takeWhile P s)" using assms by (simp del: takeWhile_dropWhile_id)
  finally show ?thesis .
qed

lemma list_all_take_takeWhile:
  assumes "n \<le> length (takeWhile P s)"
  shows "list_all P (take n s)"
proof -
  have "set (take n (takeWhile P s)) \<subseteq> set (takeWhile P s)" by (rule set_take_subset)
  then have "\<forall>x \<in> set (take n (takeWhile P s)). P x" by (auto dest: set_takeWhileD)
  then show ?thesis by (simp add: take_le_takeWhile [OF assms] list_all_iff)
qed

lemma take_nonempty_takeWhile:
  assumes "1 \<le> n" "n \<le> length (takeWhile P s)"
  shows "take n s \<noteq> []"
proof -
  have "takeWhile P s \<noteq> []" using assms by auto
  then show ?thesis using assms by (simp add: take_le_takeWhile [OF assms(2)])
qed

lemma rx_match_sound:
  "rx_match p s = Some (segs, rest) \<Longrightarrow> s = concat segs @ rest \<and> list_all2 item_ok p segs"
proof (induction p s arbitrary: segs rest rule: rx_match.induct)
  case (1 s)
  then show ?case by simp
next
  case (2 P rs s)
  from "2.prems" obtain c cs where s: "s = c # cs" and c: "P c" by (auto split: list.splits if_splits)
  with "2.prems" obtain sg where sg: "rx_match rs cs = Some (sg, rest)" "segs = [c] # sg"
    by (auto split: option.splits)
  from "2.IH" [OF s c sg(1)] have "cs = concat sg @ rest" "list_all2 item_ok rs sg" by simp_all
  with s c sg(2) show ?case by simp
next
  case (3 P rs s)
  from "3.prems" have "backtrack
       (\<lambda>n. case rx_match rs (drop n s) of None \<Rightarrow> None
            | Some (sg, r) \<Rightarrow> Some (take n s # sg, r))
       0 (length (takeWhile P s)) = Some (segs, rest)" by simp
  from backtrack_SomeD [OF this] obtain m where m: "m \<le> length (takeWhile P s)"
      and f: "(case rx_match rs (drop m s) of None \<Rightarrow> None
               | Some (sg, r) \<Rightarrow> Some (take m s # sg, r)) = Some (segs, rest)"
    by blast
  from f obtain sg where sg: "rx_match rs (drop m s) = Some (sg, rest)" "segs = take m s # sg"
    by (auto split: option.splits)
  from "3.IH" [OF sg(1)] have ih: "drop m s = concat sg @ rest" "list_all2 item_ok rs sg"
    by simp_all
  have "s = take m s @ drop m s" by simp
  then have "s = concat segs @ rest" using ih(1) sg(2) by simp
  moreover have "list_all P (take m s)" using m by (rule list_all_take_takeWhile)
  ultimately show ?case using sg(2) ih(2) by simp
next
  case (4 P rs s)
  from "4.prems" have "backtrack
       (\<lambda>n. case rx_match rs (drop n s) of None \<Rightarrow> None
            | Some (sg, r) \<Rightarrow> Some (take n s # sg, r))
       1 (length (takeWhile P s)) = Some (segs, rest)" by simp
  from backtrack_SomeD [OF this] obtain m where m: "1 \<le> m" "m \<le> length (takeWhile P s)"
      and f: "(case rx_match rs (drop m s) of None \<Rightarrow> None
               | Some (sg, r) \<Rightarrow> Some (take m s # sg, r)) = Some (segs, rest)"
    by blast
  from f obtain sg where sg: "rx_match rs (drop m s) = Some (sg, rest)" "segs = take m s # sg"
    by (auto split: option.splits)
  from "4.IH" [OF sg(1)] have ih: "drop m s = concat sg @ rest" "list_all2 item_ok rs sg"
    by simp_all
  have "s = take m s @ drop m s" by simp
  then have "s = concat segs @ rest" using ih(1) sg(2) by simp
  moreover have "list_all P (take m s)" using m(2) by (rule list_all_take_takeWhile)
  moreover have "take m s \<noteq> []" using m by (rule take_nonempty_takeWhile)
  ultimately show ?case using sg(2) ih(2) by simp
qed

lemma rx_search_sound:
  "rx_search p s = Some segs \<Longrightarrow>
     \<exists>before rest. s = before @ concat segs @ rest \<and> list_all2 item_ok p segs"
proof (induction s)
  case Nil
  then obtain rest where "rx_match p [] = Some (segs, rest)" by auto
  from rx_match_sound [OF this] show ?case by simp
next
  case (Cons c cs)
  show ?case
  proof (cases "rx_match p (c # cs)")
    case None
    with Cons.prems have "rx_search p cs = Some segs" by simp
    from Cons.IH [OF this] obtain before rest
      where "cs = before @ concat segs @ rest" "list_all2 item_ok p segs" by blast
    then have "c # cs = (c # before) @ concat segs @ rest \<and> list_all2 item_ok p segs" by simp
    then show ?thesis by blast
  next
    case (Some r)
    with Cons.prems obtain rest where "rx_match p (c # cs) = Some (segs, rest)"
      by (cases r) auto
    from rx_match_sound [OF this]
    have "c # cs = [] @ concat segs @ rest \<and> list_all2 item_ok p segs" by simp
    then show ?thesis by blast
  qed
qed

lemma header_ip_dotted_quad:
  assumes "header_ip line = Some v"
  shows "\<exists>a b c d before rest.
           v = a @ ''.'' @ b @ ''.'' @ c @ ''.'' @ d \<and> line = before @ v @ rest \<and>
           a \<noteq> [] \<and> list_all is_digit a \<and> b \<noteq> [] \<and> list_all is_digit b \<and>
           c \<noteq> [] \<and> list_all is_digit c \<and> d \<noteq> [] \<and> list_all is_digit d"
proof -
  from assms obtain segs where s: "rx_search ip_pattern line = Some segs" and v: "v = concat segs"
    by (auto simp: header_ip_def re_search_def group1_def)
  from rx_search_sound [OF s] obtain before rest
    where line: "line = before @ concat segs @ rest" and ok: "list_all2 item_ok ip_pattern segs"
    by blast
  from ok obtain a p1 b p2 c p3 d where segs: "segs = [a, p1, b, p2, c, p3, d]"
    and items: "item_ok (Plus is_digit) a" "item_ok (One (\<lambda>c. c = CHR ''.'')) p1"
      "item_ok (Plus is_digit) b" "item_ok (One (\<lambda>c. c = CHR ''.'')) p2"
      "item_ok (Plus is_digit) c" "item_ok (One (\<lambda>c. c = CHR ''.'')) p3"
      "item_ok (Plus is_digit) d"
    unfolding ip_pattern_def by (auto simp: list_all2_Cons1)
  have dot: "p = ''.''" if "item_ok (One (\<lambda>c. c = CHR ''.'')) p" for p
    using that by (cases p) auto
  have "v = a @ ''.'' @ b @ ''.'' @ c @ ''.'' @ d"
    using v segs dot [OF items(2)] dot [OF items(4)] dot [OF items(6)] by simp
  moreover have "line = before @ v @ rest" using line v by simp
  moreover have "a \<noteq> [] \<and> list_all is_digit a \<and> b \<noteq> [] \<and> list_all is_digit b \<and>
           c \<noteq> [] \<and> list_all is_digit c \<and> d \<noteq> [] \<and> list_all is_digit d"
    using items(1,3,5,7) by simp
  ultimately show ?thesis by blast
qed

lemma header_ip_nonempty: "header_ip line = Some v \<Longrightarrow> v \<noteq> []"
  using header_ip_dotted_quad [of line v] by auto

lemma backtrack_first: "lo \<le> n \<Longrightarrow> f n = Some r \<Longrightarrow> backtrack f lo n = Some r"
  by (subst backtrack.simps) simp

lemma rx_match_Plus_greedy:
  assumes "takeWhile P s \<noteq> []" "rx_match rs (dropWhile P s) = Some (segs, rest)"
  shows "rx_match (Plus P # rs) s = Some (takeWhile P s # segs, rest)"
proof -
  have "take (length (takeWhile P s)) s = takeWhile P s"
    using append_eq_conv_conj [of "takeWhile P s" "dropWhile P s" s] by simp
  moreover have "drop (length (takeWhile P s)) s = dropWhile P s"
    using append_eq_conv_conj [of "takeWhile P s" "dropWhile P s" s] by simp
  moreover have "1 \<le> length (takeWhile P s)" using assms(1) by (cases "takeWhile P s") auto
  ultimately show ?thesis using assms(2) by (simp add: backtrack_first)
qed

lemma rx_match_digits_dot:
  assumes "a \<noteq> []" "list_all is_digit a" "rx_match rs s = Some (segs, rest)"
  shows "rx_match (Plus is_digit # One (\<lambda>c. c = CHR ''.'') # rs) (a @ CHR ''.'' # s) =
           Some (a # ''.'' # segs, rest)"
proof -
  have tw: "takeWhile is_digit (a @ CHR ''.'' # s) = a"
    using assms(2) by (induction a) (auto simp: is_digit_def)
  have dw: "dropWhile is_digit (a @ CHR ''.'' # s) = CHR ''.'' # s"
    using assms(2) by (induction a) (auto simp: is_digit_def)
  have "rx_match (One (\<lambda>c. c = CHR ''.'') # rs) (CHR ''.'' # s) = Some (''.'' # segs, rest)"
    using assms(3) by simp
  with rx_match_Plus_greedy [of is_digit "a @ CHR ''.'' # s" "One (\<lambda>c. c = CHR ''.'') # rs"
      "''.'' # segs" rest] assms(1) tw dw
  show ?thesis by simp
qed

lemma rx_match_ip_pattern:
  assumes "a \<noteq> []" "list_all is_digit a" "b \<noteq> []" "list_all is_digit b"
    and "c \<noteq> []" "list_all is_digit c" "d \<noteq> []" "list_all is_digit d"
  shows "rx_match ip_pattern (a @ ''.'' @ b @ ''.'' @ c @ ''.'' @ d @ rest) \<noteq> None"
proof -
  have "takeWhile is_digit (d @ rest) \<noteq> []" using assms(7,8) by (cases d) auto
  then have "rx_match [Plus is_digit] (d @ rest) =
      Some ([takeWhile is_digit (d @ rest)], dropWhile is_digit (d @ rest))"
    by (simp only: rx_match_single_Plus if_False)
  from rx_match_digits_dot [OF assms(5,6) this]
  have "rx_match [Plus is_digit, One (\<lambda>c. c = CHR ''.''), Plus is_digit]
      (c @ CHR ''.'' # d @ rest) =
      Some ([c, ''.'', takeWhile is_digit (d @ rest)], dropWhile is_digit (d @ rest))" .
  from rx_match_digits_dot [OF assms(3,4) this]
  have "rx_match [Plus is_digit, One (\<lambda>c. c = CHR ''.''), Plus is_digit,
        One (\<lambda>c. c = CHR ''.''), Plus is_digit]
      (b @ CHR ''.'' # c @ CHR ''.'' # d @ rest) =
      Some ([b, ''.'', c, ''.'', takeWhile is_digit (d @ rest)], dropWhile is_digit (d @ rest))" .
  from rx_match_digits_dot [OF assms(1,2) this]
  have "rx_match ip_pattern (a @ CHR ''.'' # b @ CHR ''.'' # c @ CHR ''.'' # d @ rest) =
      Some ([a, ''.'', b, ''.'', c, ''.'', takeWhile is_digit (d @ rest)],
        dropWhile is_digit (d @ rest))"
    unfolding ip_pattern_def .
  then show ?thesis by simp
qed

lemma rx_search_finds: "rx_match p s \<noteq> None \<Longrightarrow> rx_search p (before @ s) \<noteq> None"
proof (induction before)
  case Nil
  then show ?case by (cases s) auto
next
  case (Cons x xs)
  then show ?case by (cases "rx_match p (x # xs @ s)") auto
qed

lemma header_ip_iff_dotted_quad:
  "header_ip line \<noteq> None \<longleftrightarrow>
     (\<exists>a b c d before rest.
        line = before @ a @ ''.'' @ b @ ''.'' @ c @ ''.'' @ d @ rest \<and>
        a \<noteq> [] \<and> list_all is_digit a \<and> b \<noteq> [] \<and> list_all is_digit b \<and>
        c \<noteq> [] \<and> list_all is_digit c \<and> d \<noteq> [] \<and> list_all is_digit d)"
proof
  assume "header_ip line \<noteq> None"
  then obtain v where "header_ip line = Some v" by blast
  from header_ip_dotted_quad [OF this] obtain a b c d before rest
    where "v = a @ ''.'' @ b @ ''.'' @ c @ ''.'' @ d" "line = before @ v @ rest"
      "a \<noteq> [] \<and> list_all is_digit a \<and> b \<noteq> [] \<and> list_all is_digit b \<and>
       c \<noteq> [] \<and> list_all is_digit c \<and> d \<noteq> [] \<and> list_all is_digit d"
    by blast
  then have "line = before @ a @ ''.'' @ b @ ''.'' @ c @ ''.'' @ d @ rest \<and>
       a \<noteq> [] \<and> list_all is_digit a \<and> b \<noteq> [] \<and> list_all is_digit b \<and>
       c \<noteq> [] \<and> list_all is_digit c \<and> d \<noteq> [] \<and> list_all is_digit d" by simp
  then show "\<exists>a b c d before rest.
        line = before @ a @ ''.'' @ b @ ''.'' @ c @ ''.'' @ d @ rest \<and>
        a \<noteq> [] \<and> list_all is_digit a \<and> b \<noteq> [] \<and> list_all is_digit b \<and>
        c \<noteq> [] \<and> list_all is_digit c \<and> d \<noteq> [] \<and> list_all is_digit d" by blast
next
  assume "\<exists>a b c d before rest.
        line = before @ a @ ''.'' @ b @ ''.'' @ c @ ''.'' @ d @ rest \<and>
        a \<noteq> [] \<and> list_all is_digit a \<and> b \<noteq> [] \<and> list_all is_digit b \<and>
        c \<noteq> [] \<and> list_all is_digit c \<and> d \<noteq> [] \<and> list_all is_digit d"
  then obtain a b c d before rest
    where line: "line = before @ a @ ''.'' @ b @ ''.'' @ c @ ''.'' @ d @ rest"
      and q: "a \<noteq> []" "list_all is_digit a" "b \<noteq> []" "list_all is_digit b"
        "c \<noteq> []" "list_all is_digit c" "d \<noteq> []" "list_all is_digit d"
    by blast
  from rx_search_finds [OF rx_match_ip_pattern [OF q], of before rest]
  show "header_ip line \<noteq> None" by (simp add: header_ip_def re_search_def line)
qed

lemma header_line_eq: "header_line host_block = takeWhile (\<lambda>c. c \<noteq> CHR ''\<newline>'') host_block"
  by (simp add: header_line_def py_split_char_hd)

lemma py_split_newline:
  "py_split ''\<newline>'' host_block = header_line host_block # tl (py_split ''\<newline>'' host_block)"
  using py_split_nonempty [of "''\<newline>''" host_block] by (simp add: header_line_def)

lemma parse_host_no_ip:
  "header_ip (header_line host_block) = None \<Longrightarrow> parse_host p host_block = (Returned None, p)"
  by (subst parse_host_def, subst py_split_newline) simp

lemma parse_host_not_dc:
  "\<not> fst (check_domain_controller host_block) \<Longrightarrow> parse_host p host_block = (Returned None, p)"
proof -
  assume "\<not> fst (check_domain_controller host_block)"
  then obtain fp fs where c: "check_domain_controller host_block = (False, fp, fs)"
    by (cases "check_domain_controller host_block") auto
  show ?thesis
    by (subst parse_host_def, subst py_split_newline) (simp add: Let_def c split: option.splits)
qed

lemma parse_host_dc:
  assumes "header_ip (header_line host_block) = Some addr"
    and "fst (check_domain_controller host_block)"
  shows "\<exists>dc p'. parse_host p host_block = (Returned (Some dc), p') \<and> ip dc = addr \<and>
           hostname dc = the (header_hostname (header_line host_block) (Some addr)) \<and>
           ports dc = fst (snd (check_domain_controller host_block)) \<and>
           services dc = snd (snd (check_domain_controller host_block))"
proof -
  have ne: "addr \<noteq> []" using assms(1) by (rule header_ip_nonempty)
  have hn: "header_hostname (header_line host_block) (Some addr) \<noteq> None"
    by (simp add: header_hostname_def split: option.splits)
  then obtain h where h: "header_hostname (header_line host_block) (Some addr) = Some h" by blast
  obtain fp fs where c: "check_domain_controller host_block = (True, fp, fs)"
    using assms(2) by (cases "check_domain_controller host_block") auto
  show ?thesis
    by (subst parse_host_def, subst py_split_newline) (simp add: Let_def assms(1) ne h c)
qed

lemma header_hostname_eq:
  "header_hostname line ip_opt =
     (if takeWhile (\<lambda>c. c \<noteq> CHR ''('') line = [] then ip_opt
      else Some (py_strip (takeWhile (\<lambda>c. c \<noteq> CHR ''('') line)))"
  unfolding header_hostname_def re_search_anchored_def append_Nil rx_match_single_Plus
  by (simp add: group1_def)

lemma py_str_port_patterns:
  "py_str 88 @ ''/tcp'' = ''88/tcp''" "py_str 389 @ ''/tcp'' = ''389/tcp''"
  "py_str 636 @ ''/tcp'' = ''636/tcp''"
  by (simp_all add: py_str_ports)

section \<open>Properties of port detection and classification\<close>

text \<open>
  C5: the ports found in a host block are the ports of the table 88, 389, 636, 445, 3268,
  3269, 53, 135 whose pattern \<^verbatim>\<open><port>/tcp\<close> occurs in the lowercased block, in the
  order of the table; the services are the table's names for these ports, position
  by position, so both lists have the same length.
\<close>

theorem found_ports_table_subsequence:
  "fst (snd (check_domain_controller block)) =
     filter (\<lambda>port. py_in (py_str port @ ''/tcp'') (py_lower block))
       [88, 389, 636, 445, 3268, 3269, 53, 135] \<and>
   zip (fst (snd (check_domain_controller block))) (snd (snd (check_domain_controller block))) =
     filter (\<lambda>(port, service). py_in (py_str port @ ''/tcp'') (py_lower block)) AD_PORTS \<and>
   length (snd (snd (check_domain_controller block))) =
     length (fst (snd (check_domain_controller block))) \<and>
   list_all2 (\<lambda>port service. map_of AD_PORTS port = Some service)
     (fst (snd (check_domain_controller block))) (snd (snd (check_domain_controller block)))"
proof -
  let ?found = "filter (\<lambda>(port, service). py_in (py_str port @ ''/tcp'') (py_lower block)) AD_PORTS"
  have ports: "fst (snd (check_domain_controller block)) = map fst ?found"
    and services: "snd (snd (check_domain_controller block)) = map snd ?found"
    by (simp_all add: check_domain_controller_def Let_def scan_ports_filter)
  have f1: "map fst ?found =
      filter (\<lambda>port. py_in (py_str port @ ''/tcp'') (py_lower block))
        [88, 389, 636, 445, 3268, 3269, 53, 135]"
    by (simp add: AD_PORTS_def)
  have f2: "zip (map fst ?found) (map snd ?found) = ?found"
    by (rule zip_map_fst_snd)
  have f3: "length (map snd ?found) = length (map fst ?found)" by simp
  have f4: "list_all2 (\<lambda>port service. map_of AD_PORTS port = Some service)
      (map fst ?found) (map snd ?found)"
  proof -
    have "distinct (map fst AD_PORTS)" by (simp add: AD_PORTS_def)
    then have "map_of AD_PORTS (fst x) = Some (snd x)" if "x \<in> set ?found" for x
      using that by (cases x) auto
    then show ?thesis by (simp add: list_all2_map1 list_all2_map2 list_all2_same)
  qed
  from f1 f2 f3 f4 show ?thesis unfolding ports services by blast
qed

text \<open>
  C10: the search is for a substring, so \<^verbatim>\<open>3389/tcp\<close> counts as \<^verbatim>\<open>389/tcp\<close>: a host
  with a valid address whose only port lines are 88 and 3389 gets port 389 (LDAP) recorded
  and is classified as a domain controller.
\<close>

theorem rdp_port_counts_as_ldap:
  "check_domain_controller
     ''10.0.0.5\<newline>88/tcp open kerberos-sec\<newline>3389/tcp open ms-wbt-server'' =
     (True, [88, 389], [''Kerberos'', ''LDAP'']) \<and>
   (case fst (parse_host new_parser
        ''10.0.0.5\<newline>88/tcp open kerberos-sec\<newline>3389/tcp open ms-wbt-server'') of
      Returned (Some dc) \<Rightarrow> ip dc = ''10.0.0.5'' \<and> ports dc = [88, 389] \<and>
        services dc = [''Kerberos'', ''LDAP'']
    | Returned None \<Rightarrow> False
    | Raised msg \<Rightarrow> False)"
  by code_simp

text \<open>
  C1: a host block whose first line has an IPv4 address (four runs of digits separated by
  dots, \<open>header_ip_iff_dotted_quad\<close>) is promoted to a domain controller
  record exactly when its lowercased text contains \<^verbatim>\<open>88/tcp\<close> and also \<^verbatim>\<open>389/tcp\<close> or
  \<^verbatim>\<open>636/tcp\<close>. A block with only \<^verbatim>\<open>88/tcp\<close>, or without \<^verbatim>\<open>88/tcp\<close>, is not promoted;
  a block that does not qualify gives no record, raises nothing and leaves the parser as
  it was.
\<close>

theorem promoted_iff_kerberos_and_ldap:
  assumes "header_ip (header_line host_block) \<noteq> None"
  shows "((\<exists>dc. fst (parse_host p host_block) = Returned (Some dc)) \<longleftrightarrow>
            py_in ''88/tcp'' (py_lower host_block) \<and>
            (py_in ''389/tcp'' (py_lower host_block) \<or> py_in ''636/tcp'' (py_lower host_block))) \<and>
         (\<not> (py_in ''88/tcp'' (py_lower host_block) \<and>
             (py_in ''389/tcp'' (py_lower host_block) \<or> py_in ''636/tcp'' (py_lower host_block)))
          \<longrightarrow> parse_host p host_block = (Returned None, p))"
proof (cases "fst (check_domain_controller host_block)")
  case True
  from assms obtain addr where "header_ip (header_line host_block) = Some addr" by blast
  from parse_host_dc [OF this True, of p] True show ?thesis by (auto simp: is_dc_iff)
next
  case False
  from parse_host_not_dc [OF this, of p] False show ?thesis by (auto simp: is_dc_iff)
qed

theorem promoted_iff_kerberos_and_ldap_witness:
  "header_ip (header_line ''dc01 (10.0.0.1)\<newline>88/tcp open\<newline>636/tcp open'') \<noteq> None \<and>
   py_in ''88/tcp'' (py_lower ''dc01 (10.0.0.1)\<newline>88/tcp open\<newline>636/tcp open'') \<and>
   py_in ''636/tcp'' (py_lower ''dc01 (10.0.0.1)\<newline>88/tcp open\<newline>636/tcp open'') \<and>
   (\<exists>dc. fst (parse_host new_parser ''dc01 (10.0.0.1)\<newline>88/tcp open\<newline>636/tcp open'') =
      Returned (Some dc)) \<and>
   header_ip (header_line ''10.0.0.2\<newline>88/tcp open'') \<noteq> None \<and>
   py_in ''88/tcp'' (py_lower ''10.0.0.2\<newline>88/tcp open'') \<and>
   parse_host new_parser ''10.0.0.2\<newline>88/tcp open'' = (Returned None, new_parser)"
proof -
  let ?b1 = "''dc01 (10.0.0.1)\<newline>88/tcp open\<newline>636/tcp open''"
  let ?b2 = "''10.0.0.2\<newline>88/tcp open''"
  have h1: "header_ip (header_line ?b1) \<noteq> None" by code_simp
  have q1: "py_in ''88/tcp'' (py_lower ?b1)" "py_in ''636/tcp'' (py_lower ?b1)" by code_simp+
  have h2: "header_ip (header_line ?b2) \<noteq> None" by code_simp
  have q2: "py_in ''88/tcp'' (py_lower ?b2)" "\<not> py_in ''389/tcp'' (py_lower ?b2)"
    "\<not> py_in ''636/tcp'' (py_lower ?b2)" by code_simp+
  from promoted_iff_kerberos_and_ldap [OF h1, of new_parser] q1
  have "\<exists>dc. fst (parse_host new_parser ?b1) = Returned (Some dc)" by blast
  moreover from promoted_iff_kerberos_and_ldap [OF h2, of new_parser] q2
  have "parse_host new_parser ?b2 = (Returned None, new_parser)" by blast
  ultimately show ?thesis using h1 q1 h2 q2(1) by blast
qed

section \<open>Properties of header parsing\<close>

text \<open>
  C8: a host block whose first line has no IPv4 address gives no record and no entry in
  the list of parse errors; the loop goes on to the next block with the parser unchanged.
\<close>

theorem block_without_ip_dropped_silently:
  assumes "header_ip (header_line host_block) = None"
  shows "parse_host p host_block = (Returned None, p) \<and>
         process_hosts parse_host idx [host_block] p = p \<and>
         process_hosts parse_host idx (host_block # blocks) p =
           process_hosts parse_host (idx + 1) blocks p"
  using parse_host_no_ip [OF assms, of p] by simp

theorem block_without_ip_dropped_silently_witness:
  "header_ip (header_line ''gateway.example\<newline>88/tcp open\<newline>389/tcp open'') = None \<and>
   parse_host new_parser ''gateway.example\<newline>88/tcp open\<newline>389/tcp open'' =
     (Returned None, new_parser) \<and>
   process_hosts parse_host 1 [''gateway.example\<newline>88/tcp open\<newline>389/tcp open'']
     new_parser = new_parser"
proof -
  have h: "header_ip (header_line ''gateway.example\<newline>88/tcp open\<newline>389/tcp open'') = None"
    by code_simp
  from block_without_ip_dropped_silently [OF h, of new_parser 1] h show ?thesis by simp
qed

text \<open>
  C6: when the first line has an IPv4 address, the hostname is the text of the first line
  before its first \<^verbatim>\<open>(\<close>, trimmed of whitespace, and the address itself when the line
  has nothing before its first \<^verbatim>\<open>(\<close> (a line with only whitespace there has a name, which
  is empty once trimmed); a record that is created carries this address and this hostname.
  When the first line has no address, the block is rejected.
\<close>

theorem hostname_from_header_line:
  "(header_ip (header_line host_block) = None \<longrightarrow>
      parse_host p host_block = (Returned None, p)) \<and>
   (\<forall>addr. header_ip (header_line host_block) = Some addr \<longrightarrow>
      header_hostname (header_line host_block) (Some addr) =
        Some (if takeWhile (\<lambda>c. c \<noteq> CHR ''('') (header_line host_block) = [] then addr
              else py_strip (takeWhile (\<lambda>c. c \<noteq> CHR ''('') (header_line host_block))) \<and>
      (\<forall>dc p'. parse_host p host_block = (Returned (Some dc), p') \<longrightarrow>
         ip dc = addr \<and>
         hostname dc =
           (if takeWhile (\<lambda>c. c \<noteq> CHR ''('') (header_line host_block) = [] then addr
            else py_strip (takeWhile (\<lambda>c. c \<noteq> CHR ''('') (header_line host_block)))))"
proof (intro conjI allI impI)
  assume "header_ip (header_line host_block) = None"
  then show "parse_host p host_block = (Returned None, p)" by (rule parse_host_no_ip)
next
  fix addr
  assume "header_ip (header_line host_block) = Some addr"
  show "header_hostname (header_line host_block) (Some addr) =
        Some (if takeWhile (\<lambda>c. c \<noteq> CHR ''('') (header_line host_block) = [] then addr
              else py_strip (takeWhile (\<lambda>c. c \<noteq> CHR ''('') (header_line host_block)))"
    by (simp add: header_hostname_eq)
next
  fix addr dc p'
  assume addr: "header_ip (header_line host_block) = Some addr"
    and dc: "parse_host p host_block = (Returned (Some dc), p')"
  have "fst (check_domain_controller host_block)"
    using parse_host_not_dc [of host_block p] dc by auto
  from parse_host_dc [OF addr this, of p] dc
  have "ip dc = addr"
    and "hostname dc = the (header_hostname (header_line host_block) (Some addr))"
    by auto
  then show "ip dc = addr"
    and "hostname dc =
           (if takeWhile (\<lambda>c. c \<noteq> CHR ''('') (header_line host_block) = [] then addr
            else py_strip (takeWhile (\<lambda>c. c \<noteq> CHR ''('') (header_line host_block)))"
    by (simp_all add: header_hostname_eq)
qed

theorem hostname_from_header_line_witness:
  "header_ip (header_line ''dc01.corp.local (10.0.0.1)\<newline>88/tcp open\<newline>389/tcp open'') =
     Some ''10.0.0.1'' \<and>
   (\<exists>dc. fst (parse_host new_parser
        ''dc01.corp.local (10.0.0.1)\<newline>88/tcp open\<newline>389/tcp open'') = Returned (Some dc) \<and>
      ip dc = ''10.0.0.1'' \<and> hostname dc = ''dc01.corp.local'') \<and>
   header_ip (header_line ''(10.0.0.2)\<newline>88/tcp open\<newline>389/tcp open'') = Some ''10.0.0.2'' \<and>
   (\<exists>dc. fst (parse_host new_parser ''(10.0.0.2)\<newline>88/tcp open\<newline>389/tcp open'') =
        Returned (Some dc) \<and>
      ip dc = ''10.0.0.2'' \<and> hostname dc = ''10.0.0.2'')"
proof -
  let ?b1 = "''dc01.corp.local (10.0.0.1)\<newline>88/tcp open\<newline>389/tcp open''"
  let ?b2 = "''(10.0.0.2)\<newline>88/tcp open\<newline>389/tcp open''"
  have a1: "header_ip (header_line ?b1) = Some ''10.0.0.1''" by code_simp
  have a2: "header_ip (header_line ?b2) = Some ''10.0.0.2''" by code_simp
  have n1: "(if takeWhile (\<lambda>c. c \<noteq> CHR ''('') (header_line ?b1) = [] then ''10.0.0.1''
             else py_strip (takeWhile (\<lambda>c. c \<noteq> CHR ''('') (header_line ?b1))) = ''dc01.corp.local''"
    by code_simp
  have n2: "(if takeWhile (\<lambda>c. c \<noteq> CHR ''('') (header_line ?b2) = [] then ''10.0.0.2''
             else py_strip (takeWhile (\<lambda>c. c \<noteq> CHR ''('') (header_line ?b2))) = ''10.0.0.2''"
    by code_simp
  have "fst (parse_host new_parser ?b1) =
      Returned (Some \<lparr>ip = ''10.0.0.1'', hostname = ''dc01.corp.local'', domain = None,
        netbios = None, ports = [88, 389], services = [''Kerberos'', ''LDAP'']\<rparr>)"
    by code_simp
  then obtain dc1
    where d1: "parse_host new_parser ?b1 = (Returned (Some dc1), snd (parse_host new_parser ?b1))"
    by (metis prod.collapse)
  have "fst (parse_host new_parser ?b2) =
      Returned (Some \<lparr>ip = ''10.0.0.2'', hostname = ''10.0.0.2'', domain = None,
        netbios = None, ports = [88, 389], services = [''Kerberos'', ''LDAP'']\<rparr>)"
    by code_simp
  then obtain dc2
    where d2: "parse_host new_parser ?b2 = (Returned (Some dc2), snd (parse_host new_parser ?b2))"
    by (metis prod.collapse)
  from hostname_from_header_line [of ?b1 new_parser] a1 d1 n1
  have "ip dc1 = ''10.0.0.1'' \<and> hostname dc1 = ''dc01.corp.local''" by metis
  moreover from hostname_from_header_line [of ?b2 new_parser] a2 d2 n2
  have "ip dc2 = ''10.0.0.2'' \<and> hostname dc2 = ''10.0.0.2''" by metis
  ultimately show ?thesis using a1 a2 d1 d2 by (metis fst_conv)
qed

section \<open>Properties of report splitting and of the loop over the host blocks\<close>

lemma py_split_no_sep: "\<not> py_in sep s \<Longrightarrow> py_split sep s = [s]"
proof (induction s)
  case Nil
  then show ?case by (subst py_split.simps) auto
next
  case (Cons c cs)
  then have "\<not> prefix sep (c # cs)" "py_split sep cs = [cs]" by auto
  then show ?case by (subst py_split.simps) simp
qed

lemma py_join_Cons: "py_join sep (x # xs) = x @ concat (map ((@) sep) xs)"
  by (induction xs arbitrary: x) auto

lemma py_join_split: "py_join sep (py_split sep s) = s"
proof (induction sep s rule: py_split.induct)
  case (1 sep s)
  show ?case
  proof (cases "sep \<noteq> [] \<and> prefix sep s")
    case True
    then obtain rest where s: "s = sep @ rest" by (auto simp: prefix_def)
    have "py_split sep s = [] # py_split sep (drop (length sep) s)"
      using True by (subst py_split.simps) simp
    moreover obtain w ws where w: "py_split sep (drop (length sep) s) = w # ws"
      using py_split_nonempty [of sep "drop (length sep) s"] by (auto simp: neq_Nil_conv)
    moreover have "py_join sep (py_split sep (drop (length sep) s)) = drop (length sep) s"
      using "1.IH"(1) True by simp
    ultimately show ?thesis using s by simp
  next
    case False
    show ?thesis
    proof (cases s)
      case Nil
      with False show ?thesis by (subst py_split.simps) auto
    next
      case (Cons c cs)
      obtain w ws where w: "py_split sep cs = w # ws"
        using py_split_nonempty [of sep cs] by (auto simp: neq_Nil_conv)
      have "py_join sep (py_split sep cs) = cs" using "1.IH"(2) False Cons by simp
      then have "py_join sep ((c # w) # ws) = c # cs" using w by (simp add: py_join_Cons)
      moreover have "py_split sep s = (c # w) # ws"
        using False Cons w by (subst py_split.simps) auto
      ultimately show ?thesis using Cons by simp
    qed
  qed
qed

lemma py_split_hd_no_sep: "sep \<noteq> [] \<Longrightarrow> \<not> py_in sep (hd (py_split sep s))"
proof (induction s)
  case Nil
  then show ?case by (subst py_split.simps) auto
next
  case (Cons c cs)
  show ?case
  proof (cases "prefix sep (c # cs)")
    case True
    with Cons.prems show ?thesis by (subst py_split.simps) simp
  next
    case False
    obtain w ws where w: "py_split sep cs = w # ws"
      using py_split_nonempty [of sep cs] by (auto simp: neq_Nil_conv)
    with Cons have nw: "\<not> py_in sep w" by simp
    have "\<not> prefix sep (c # w)"
    proof
      assume "prefix sep (c # w)"
      moreover have "prefix w cs"
      proof -
        have "py_join sep (w # ws) = cs" using py_join_split [of sep cs] w by simp
        then have "cs = w @ concat (map ((@) sep) ws)" by (simp add: py_join_Cons)
        then show ?thesis by (rule prefixI)
      qed
      ultimately have "prefix sep (c # cs)" by (meson Cons_prefix_Cons prefix_order.trans)
      with False show False by simp
    qed
    with nw have "\<not> py_in sep (c # w)" by simp
    moreover have "py_split sep (c # cs) = (c # w) # ws"
      using False w by (subst py_split.simps) auto
    ultimately show ?thesis by simp
  qed
qed

lemma process_hosts_append:
  "process_hosts ph idx (xs @ ys) p =
     process_hosts ph (idx + int (length xs)) ys (process_hosts ph idx xs p)"
proof (induction xs arbitrary: idx p)
  case Nil
  show ?case by simp
next
  case (Cons x xs)
  have idx: "idx + 1 + int (length xs) = idx + (1 + int (length xs))" by simp
  obtain r p' where r: "ph p x = (r, p')" by (cases "ph p x")
  show ?case
  proof (cases r)
    case (Returned rec)
    then show ?thesis using r Cons.IH by (cases rec) (simp_all add: idx)
  next
    case (Raised msg)
    then show ?thesis using r Cons.IH by (simp add: idx)
  qed
qed

lemma parse_host_never_raises: "fst (parse_host p host_block) \<noteq> Raised msg"
  by (subst parse_host_def, subst py_split_newline)
     (simp add: Let_def split: option.splits prod.splits)

lemma parse_host_keeps_errors:
  "parse_errors (snd (parse_host p host_block)) = parse_errors p"
  by (subst parse_host_def, subst py_split_newline)
     (simp add: Let_def split: option.splits prod.splits)

lemma process_hosts_parse_host_errors:
  "parse_errors (process_hosts parse_host idx blocks p) = parse_errors p"
proof (induction blocks arbitrary: idx p)
  case Nil
  show ?case by simp
next
  case (Cons b blocks)
  obtain r p' where r: "parse_host p b = (r, p')" by (cases "parse_host p b")
  have e: "parse_errors p' = parse_errors p" using parse_host_keeps_errors [of p b] r by simp
  show ?case
  proof (cases r)
    case (Returned rec)
    then show ?thesis using r e Cons.IH by (cases rec) simp_all
  next
    case (Raised msg)
    then show ?thesis using r parse_host_never_raises [of p b msg] by simp
  qed
qed

text \<open>
  C9: a report in which the marker \<^verbatim>\<open>Nmap scan report for \<close> does not occur has no host
  block: \<^verbatim>\<open>parse\<close> succeeds with \<^verbatim>\<open>total_hosts = 0\<close> and adds no record and no error.
  In general the report is the preamble followed by the blocks, each after one marker, so
  every block is a slice of the report with its line breaks as they were; the preamble
  has no marker and is not processed, the loop runs over the blocks only.
\<close>

theorem report_without_marker_has_no_hosts:
  "(\<not> py_in marker content \<longrightarrow>
      parse (Returned content) p = (True, p\<lparr>total_hosts := 0\<rparr>) \<and>
      parse (Returned content) new_parser = (True, new_parser)) \<and>
   (\<forall>preamble blocks. py_split marker content = preamble # blocks \<longrightarrow>
      content = preamble @ concat (map ((@) marker) blocks) \<and>
      \<not> py_in marker preamble \<and>
      parse_with ph (Returned content) p =
        (True, process_hosts ph 1 blocks (p\<lparr>total_hosts := int (length blocks)\<rparr>)))"
proof (intro conjI allI impI)
  assume "\<not> py_in marker content"
  then have s: "py_split marker content = [content]" by (rule py_split_no_sep)
  show "parse (Returned content) p = (True, p\<lparr>total_hosts := 0\<rparr>)"
    by (simp add: parse_def parse_with_def s)
  show "parse (Returned content) new_parser = (True, new_parser)"
    by (simp add: parse_def parse_with_def s new_parser_def)
next
  fix preamble blocks
  assume s: "py_split marker content = preamble # blocks"
  have "py_join marker (preamble # blocks) = content"
    using py_join_split [of marker content] s by simp
  then show "content = preamble @ concat (map ((@) marker) blocks)"
    by (simp add: py_join_Cons)
  have "marker \<noteq> []" by (simp add: marker_def)
  from py_split_hd_no_sep [OF this, of content] s show "\<not> py_in marker preamble" by simp
  show "parse_with ph (Returned content) p =
      (True, process_hosts ph 1 blocks (p\<lparr>total_hosts := int (length blocks)\<rparr>))"
    by (simp add: parse_with_def s)
qed

theorem report_without_marker_has_no_hosts_witness:
  "\<not> py_in marker ''Starting Nmap 7.94\<newline>Nmap done: 0 IP addresses\<newline>'' \<and>
   parse (Returned ''Starting Nmap 7.94\<newline>Nmap done: 0 IP addresses\<newline>'') new_parser =
     (True, new_parser) \<and>
   py_split marker ''# scan\<newline>Nmap scan report for 10.0.0.1\<newline>88/tcp open\<newline>'' =
     [''# scan\<newline>'', ''10.0.0.1\<newline>88/tcp open\<newline>''] \<and>
   ''# scan\<newline>Nmap scan report for 10.0.0.1\<newline>88/tcp open\<newline>'' =
     ''# scan\<newline>'' @ concat (map ((@) marker) [''10.0.0.1\<newline>88/tcp open\<newline>''])"
proof -
  have a: "\<not> py_in marker ''Starting Nmap 7.94\<newline>Nmap done: 0 IP addresses\<newline>''"
    by code_simp
  have b: "py_split marker ''# scan\<newline>Nmap scan report for 10.0.0.1\<newline>88/tcp open\<newline>'' =
     [''# scan\<newline>'', ''10.0.0.1\<newline>88/tcp open\<newline>'']"
    by code_simp
  from report_without_marker_has_no_hosts
    [of "''Starting Nmap 7.94\<newline>Nmap done: 0 IP addresses\<newline>''" new_parser] a
  have "parse (Returned ''Starting Nmap 7.94\<newline>Nmap done: 0 IP addresses\<newline>'') new_parser =
     (True, new_parser)" by blast
  moreover from report_without_marker_has_no_hosts
    [of "''# scan\<newline>Nmap scan report for 10.0.0.1\<newline>88/tcp open\<newline>''"] b
  have "''# scan\<newline>Nmap scan report for 10.0.0.1\<newline>88/tcp open\<newline>'' =
     ''# scan\<newline>'' @ concat (map ((@) marker) [''10.0.0.1\<newline>88/tcp open\<newline>''])"
    by blast
  ultimately show ?thesis using a b by blast
qed

text \<open>
  C7: when processing the host block with 1-based index \<open>i + 1\<close> raises an exception with
  message \<open>msg\<close>, the handler appends the one message \<^verbatim>\<open>Host <i + 1>: <msg>\<close> to the
  errors of the parser as the failed call left it, adds no record, and the loop goes on
  with the block of index \<open>i + 2\<close>; \<^verbatim>\<open>parse\<close> still returns \<^verbatim>\<open>True\<close>. (The function
  \<open>parse_host\<close> of the program never raises, see \<open>parse_host_never_raises\<close>, so this
  is stated for any function \<open>ph\<close> that processes a block.)
\<close>

theorem bad_block_recorded_and_skipped:
  assumes "tl (py_split marker content) = blocks"
    and "i < length blocks"
    and "ph (process_hosts ph 1 (take i blocks) (p\<lparr>total_hosts := int (length blocks)\<rparr>))
           (blocks ! i) = (Raised msg, p')"
  shows "parse_with ph (Returned content) p =
           (True,
            process_hosts ph (int i + 2) (drop (Suc i) blocks)
              (p'\<lparr>parse_errors :=
                   parse_errors p' @ [''Host '' @ py_str (int i + 1) @ '': '' @ msg]\<rparr>))"
proof -
  let ?p1 = "p\<lparr>total_hosts := int (length blocks)\<rparr>"
  have len: "int (length (py_split marker content)) - 1 = int (length blocks)"
    using assms(1) py_split_nonempty [of marker content] by (auto simp: neq_Nil_conv)
  have parse: "parse_with ph (Returned content) p = (True, process_hosts ph 1 blocks ?p1)"
    by (simp add: parse_with_def Let_def assms(1) len)
  have "blocks = take i blocks @ blocks ! i # drop (Suc i) blocks"
    using assms(2) by (simp add: id_take_nth_drop)
  then have "process_hosts ph 1 blocks ?p1 =
      process_hosts ph 1 (take i blocks @ blocks ! i # drop (Suc i) blocks) ?p1" by simp
  also have "\<dots> = process_hosts ph (1 + int i) (blocks ! i # drop (Suc i) blocks)
      (process_hosts ph 1 (take i blocks) ?p1)"
    using assms(2) by (simp add: process_hosts_append)
  also have "\<dots> = process_hosts ph (int i + 2) (drop (Suc i) blocks)
      (p'\<lparr>parse_errors := parse_errors p' @ [''Host '' @ py_str (int i + 1) @ '': '' @ msg]\<rparr>)"
    using assms(3) by (simp add: add.commute)
  finally show ?thesis using parse by simp
qed

theorem bad_block_recorded_and_skipped_witness:
  "fst (parse_with (\<lambda>p b. if b = ''???\<newline>'' then (Raised ''boom'', p) else parse_host p b)
      (Returned ''Nmap scan report for ???\<newline>Nmap scan report for 10.0.0.1\<newline>88/tcp\<newline>389/tcp'')
      new_parser) = True \<and>
   parse_errors (snd (parse_with
      (\<lambda>p b. if b = ''???\<newline>'' then (Raised ''boom'', p) else parse_host p b)
      (Returned ''Nmap scan report for ???\<newline>Nmap scan report for 10.0.0.1\<newline>88/tcp\<newline>389/tcp'')
      new_parser)) = [''Host 1: boom''] \<and>
   map ip (domain_controllers (snd (parse_with
      (\<lambda>p b. if b = ''???\<newline>'' then (Raised ''boom'', p) else parse_host p b)
      (Returned ''Nmap scan report for ???\<newline>Nmap scan report for 10.0.0.1\<newline>88/tcp\<newline>389/tcp'')
      new_parser))) = [''10.0.0.1'']"
proof -
  let ?ph = "\<lambda>p b. if b = ''???\<newline>'' then (Raised ''boom'', p) else parse_host p b"
  let ?content =
    "''Nmap scan report for ???\<newline>Nmap scan report for 10.0.0.1\<newline>88/tcp\<newline>389/tcp''"
  let ?blocks = "[''???\<newline>'', ''10.0.0.1\<newline>88/tcp\<newline>389/tcp'']"
  let ?p' = "new_parser\<lparr>total_hosts := int (length ?blocks)\<rparr>"
  have a: "tl (py_split marker ?content) = ?blocks" by code_simp
  have b: "0 < length ?blocks" by simp
  have c: "?ph (process_hosts ?ph 1 (take 0 ?blocks) (new_parser\<lparr>total_hosts := int (length ?blocks)\<rparr>))
      (?blocks ! 0) = (Raised ''boom'', ?p')" by simp
  have d: "parse_errors (process_hosts ?ph (int 0 + 2) (drop (Suc 0) ?blocks)
      (?p'\<lparr>parse_errors := parse_errors ?p' @ [''Host '' @ py_str (int 0 + 1) @ '': '' @ ''boom'']\<rparr>)) =
      [''Host 1: boom'']" by code_simp
  have e: "map ip (domain_controllers (process_hosts ?ph (int 0 + 2) (drop (Suc 0) ?blocks)
      (?p'\<lparr>parse_errors := parse_errors ?p' @ [''Host '' @ py_str (int 0 + 1) @ '': '' @ ''boom'']\<rparr>))) =
      [''10.0.0.1'']" by code_simp
  from bad_block_recorded_and_skipped [of ?content ?blocks 0 ?ph new_parser "''boom''" ?p', OF a b c]
  show ?thesis using d e by simp
qed

section \<open>Properties of domain extraction\<close>

lemma extract_domain_strategies:
  "extract_domain block =
     (case domain_label_strategy block of
        Some v \<Rightarrow> Some v
      | None \<Rightarrow>
          (case naming_context_strategy block of
             Some v \<Rightarrow> Some v
           | None \<Rightarrow>
               (case dns_computer_name_strategy block of
                  Some v \<Rightarrow> Some v
                | None \<Rightarrow> forest_strategy block)))"
  by (simp add: extract_domain_def domain_label_strategy_def naming_context_strategy_def
      dns_computer_name_strategy_def forest_strategy_def Let_def split: option.splits)

lemma labels_after_first:
  "c \<in> set s \<Longrightarrow> py_join [c] (tl (py_split [c] s)) = tl (dropWhile (\<lambda>x. x \<noteq> c) s)"
proof (induction s)
  case Nil
  then show ?case by simp
next
  case (Cons a s)
  show ?case
  proof (cases "a = c")
    case True
    have "py_split [c] (a # s) = [] # py_split [c] s"
      using True by (subst py_split.simps) simp
    then show ?thesis using True by (simp add: py_join_split)
  next
    case False
    obtain w ws where w: "py_split [c] s = w # ws"
      using py_split_nonempty [of "[c]" s] by (auto simp: neq_Nil_conv)
    have "py_split [c] (a # s) = (a # w) # ws"
      using False w by (subst py_split.simps) simp
    moreover have "py_join [c] (tl (py_split [c] s)) = tl (dropWhile (\<lambda>x. x \<noteq> c) s)"
      using Cons False by simp
    ultimately show ?thesis using False w by simp
  qed
qed

text \<open>
  C3: the domain is the value of the first of the four strategies, in the order
  \<^verbatim>\<open>Domain:\<close> label, \<^verbatim>\<open>defaultNamingContext\<close>, \<^verbatim>\<open>dns_computer_name\<close>, \<^verbatim>\<open>forest\<close>, that gives
  one. So when the \<^verbatim>\<open>Domain:\<close> label gives a value, that value is returned whatever the
  other fields hold, and when no strategy gives a value the result is \<^verbatim>\<open>None\<close>.
\<close>

theorem domain_strategies_in_fixed_order:
  "extract_domain block =
     first_match [domain_label_strategy, naming_context_strategy, dns_computer_name_strategy,
       forest_strategy] block \<and>
   (\<forall>v. domain_label_strategy block = Some v \<longrightarrow> extract_domain block = Some v) \<and>
   (domain_label_strategy block = None \<and> naming_context_strategy block = None \<and>
    dns_computer_name_strategy block = None \<and> forest_strategy block = None
    \<longrightarrow> extract_domain block = None)"
  by (simp add: extract_domain_strategies split: option.splits)

theorem domain_strategies_in_fixed_order_witness:
  "domain_label_strategy ''defaultNamingContext: DC=corp\<newline>Domain: alpha.example'' =
     Some ''alpha.example'' \<and>
   naming_context_strategy ''defaultNamingContext: DC=corp\<newline>Domain: alpha.example'' =
     Some ''corp'' \<and>
   extract_domain ''defaultNamingContext: DC=corp\<newline>Domain: alpha.example'' =
     Some ''alpha.example'' \<and>
   extract_domain ''88/tcp open kerberos-sec'' = None"
proof -
  let ?b = "''defaultNamingContext: DC=corp\<newline>Domain: alpha.example''"
  let ?n = "''88/tcp open kerberos-sec''"
  have a: "domain_label_strategy ?b = Some ''alpha.example''" by code_simp
  have b: "naming_context_strategy ?b = Some ''corp''" by code_simp
  have c: "domain_label_strategy ?n = None" "naming_context_strategy ?n = None"
    "dns_computer_name_strategy ?n = None" "forest_strategy ?n = None" by code_simp+
  from domain_strategies_in_fixed_order [of ?b] a
  have "extract_domain ?b = Some ''alpha.example''" by blast
  moreover from domain_strategies_in_fixed_order [of ?n] c
  have "extract_domain ?n = None" by blast
  ultimately show ?thesis using a b by blast
qed

text \<open>
  C4: when the first two strategies give nothing and the block has
  \<^verbatim>\<open>dns_computer_name: <value>\<close> with a dot in the value, the domain is the dot-separated
  labels of the value after the first, joined with dots: the value from just after its
  first dot.
\<close>

theorem domain_from_dns_computer_name:
  assumes "domain_label_strategy block = None"
    and "naming_context_strategy block = None"
    and "re_search (ci_lit ''dns_computer_name:'' @ [Star is_space]) [Plus not_newline] block =
           Some g"
    and "CHR ''.'' \<in> set (py_strip g)"
  shows "extract_domain block = Some (py_join ''.'' (tl (py_split ''.'' (py_strip g)))) \<and>
         py_join ''.'' (tl (py_split ''.'' (py_strip g))) =
           tl (dropWhile (\<lambda>c. c \<noteq> CHR ''.'') (py_strip g))"
  using assms labels_after_first [of "CHR ''.''" "py_strip g"]
  by (simp add: extract_domain_strategies dns_computer_name_strategy_def)

theorem domain_from_dns_computer_name_witness:
  "domain_label_strategy ''dns_computer_name: dc01.corp.local'' = None \<and>
   naming_context_strategy ''dns_computer_name: dc01.corp.local'' = None \<and>
   re_search (ci_lit ''dns_computer_name:'' @ [Star is_space]) [Plus not_newline]
     ''dns_computer_name: dc01.corp.local'' = Some ''dc01.corp.local'' \<and>
   extract_domain ''dns_computer_name: dc01.corp.local'' = Some ''corp.local''"
proof -
  let ?b = "''dns_computer_name: dc01.corp.local''"
  have a: "domain_label_strategy ?b = None" by code_simp
  have b: "naming_context_strategy ?b = None" by code_simp
  have c: "re_search (ci_lit ''dns_computer_name:'' @ [Star is_space]) [Plus not_newline] ?b =
      Some ''dc01.corp.local''" by code_simp
  have d: "CHR ''.'' \<in> set (py_strip ''dc01.corp.local'')" by code_simp
  have e: "tl (dropWhile (\<lambda>c. c \<noteq> CHR ''.'') (py_strip ''dc01.corp.local'')) = ''corp.local''"
    by code_simp
  from domain_from_dns_computer_name [OF a b c d] e
  have "extract_domain ?b = Some ''corp.local''" by simp
  then show ?thesis using a b c by blast
qed

lemma rx_match_last_greedy:
  "rx_match (pre @ [Plus P]) s = Some (segs, rest) \<Longrightarrow> dropWhile P rest = rest"
proof (induction pre arbitrary: s segs rest)
  case Nil
  then have "rest = dropWhile P s"
    by (auto simp only: append_Nil rx_match_single_Plus split: if_splits)
  then show ?case by (metis dropWhile_idem)
next
  case (Cons item pre)
  show ?case
  proof (cases item)
    case (One Q)
    with Cons.prems obtain c cs sg where "rx_match (pre @ [Plus P]) cs = Some (sg, rest)"
      by (auto split: list.splits if_splits option.splits)
    then show ?thesis by (rule Cons.IH)
  next
    case (Star Q)
    with Cons.prems have "backtrack
       (\<lambda>n. case rx_match (pre @ [Plus P]) (drop n s) of None \<Rightarrow> None
            | Some (sg, r) \<Rightarrow> Some (take n s # sg, r))
       0 (length (takeWhile Q s)) = Some (segs, rest)" by simp
    from backtrack_SomeD [OF this] obtain m sg
      where "rx_match (pre @ [Plus P]) (drop m s) = Some (sg, rest)"
      by (auto split: option.splits)
    then show ?thesis by (rule Cons.IH)
  next
    case (Plus Q)
    with Cons.prems have "backtrack
       (\<lambda>n. case rx_match (pre @ [Plus P]) (drop n s) of None \<Rightarrow> None
            | Some (sg, r) \<Rightarrow> Some (take n s # sg, r))
       1 (length (takeWhile Q s)) = Some (segs, rest)" by simp
    from backtrack_SomeD [OF this] obtain m sg
      where "rx_match (pre @ [Plus P]) (drop m s) = Some (sg, rest)"
      by (auto split: option.splits)
    then show ?thesis by (rule Cons.IH)
  qed
qed

lemma re_search_group_chars:
  assumes "re_search pre [Plus P] s = Some g"
  shows "g \<noteq> [] \<and> list_all P g"
proof -
  from assms obtain segs where s: "rx_search (pre @ [Plus P]) s = Some segs"
    and g: "g = concat (drop (length pre) segs)"
    by (auto simp: re_search_def group1_def)
  from rx_search_sound [OF s] have "list_all2 item_ok (pre @ [Plus P]) segs" by blast
  then obtain xs ys where segs: "segs = xs @ ys" and xs: "length xs = length pre"
    and ys: "list_all2 item_ok [Plus P] ys"
    by (auto simp: list_all2_append1)
  from ys obtain y where "ys = [y]" "item_ok (Plus P) y" by (auto simp: list_all2_Cons1)
  then show ?thesis using g segs xs by simp
qed

lemma set_py_strip: "set (py_strip s) \<subseteq> set s"
proof -
  have "set (py_strip s) \<subseteq> set (dropWhile is_space s)"
    unfolding py_strip_def using set_dropWhileD [of _ is_space "rev (dropWhile is_space s)"]
    by auto
  then show ?thesis using set_dropWhileD [of _ is_space s] by auto
qed

lemma findall_without_comma:
  assumes "CHR '','' \<notin> set dn"
  shows "length (re_findall (ci_lit ''DC='') [Plus (\<lambda>c. c \<noteq> CHR '','')] dn) \<le> 1"
  using assms
proof (induction dn)
  case Nil
  have "rx_match (ci_lit ''DC='' @ [Plus (\<lambda>c. c \<noteq> CHR '','')]) [] = None"
    by (simp add: ci_lit_def)
  then show ?case by (subst re_findall.simps) simp
next
  case (Cons c cs)
  let ?p = "ci_lit ''DC='' @ [Plus (\<lambda>c. c \<noteq> CHR '','')]"
  have empty: "re_findall (ci_lit ''DC='') [Plus (\<lambda>c. c \<noteq> CHR '','')] [] = []"
  proof -
    have "rx_match ?p [] = None" by (simp add: ci_lit_def)
    then show ?thesis by (subst re_findall.simps) simp
  qed
  show ?case
  proof (cases "rx_match ?p (c # cs)")
    case None
    then have "re_findall (ci_lit ''DC='') [Plus (\<lambda>c. c \<noteq> CHR '','')] (c # cs) =
        re_findall (ci_lit ''DC='') [Plus (\<lambda>c. c \<noteq> CHR '','')] cs"
      by (subst re_findall.simps) simp
    with Cons show ?thesis by simp
  next
    case (Some r)
    obtain segs rest where r: "r = (segs, rest)" by (cases r)
    from Some r have m: "rx_match ?p (c # cs) = Some (segs, rest)" by simp
    from rx_match_sound [OF m] have "c # cs = concat segs @ rest" by simp
    then have "set rest \<subseteq> set (c # cs)" by (metis set_append sup_ge2)
    with Cons.prems have "CHR '','' \<notin> set rest" by blast
    then have "dropWhile (\<lambda>c. c \<noteq> CHR '','') rest = []" by (induction rest) auto
    with rx_match_last_greedy [OF m] have "rest = []" by simp
    then have "re_findall (ci_lit ''DC='') [Plus (\<lambda>c. c \<noteq> CHR '','')] (c # cs) =
        [group1 (ci_lit ''DC='') segs]"
      using m empty by (subst re_findall.simps) simp
    then show ?thesis by simp
  qed
qed

lemma naming_context_single_component:
  assumes "re_search (ci_lit ''defaultNamingContext'' @ [Plus colon_or_space])
             [Plus (\<lambda>c. c \<noteq> CHR ''\<newline>'' \<and> c \<noteq> CHR '','')] block = Some g"
  shows "CHR '','' \<notin> set (py_strip g) \<and>
         length (re_findall (ci_lit ''DC='') [Plus (\<lambda>c. c \<noteq> CHR '','')] (py_strip g)) \<le> 1"
proof -
  from re_search_group_chars [OF assms]
  have "list_all (\<lambda>c. c \<noteq> CHR ''\<newline>'' \<and> c \<noteq> CHR '','') g" by simp
  then have "CHR '','' \<notin> set g" by (auto simp: list_all_iff)
  then have "CHR '','' \<notin> set (py_strip g)" using set_py_strip [of g] by blast
  then show ?thesis using findall_without_comma by blast
qed

text \<open>
  C2: the value taken after \<^verbatim>\<open>defaultNamingContext\<close> stops at the first comma, so only
  the first \<^verbatim>\<open>DC=\<close> component is found: for
  \<^verbatim>\<open>defaultNamingContext: DC=corp,DC=example,DC=local\<close> the domain is \<^verbatim>\<open>corp\<close>, not
  \<^verbatim>\<open>corp.example.local\<close>. On every block the list that is joined with dots has at most
  one component (\<open>naming_context_single_component\<close>).
\<close>

theorem naming_context_stops_at_first_comma:
  "re_search (ci_lit ''defaultNamingContext'' @ [Plus colon_or_space])
     [Plus (\<lambda>c. c \<noteq> CHR ''\<newline>'' \<and> c \<noteq> CHR '','')]
     ''defaultNamingContext: DC=corp,DC=example,DC=local'' = Some ''DC=corp'' \<and>
   domain_label_strategy ''defaultNamingContext: DC=corp,DC=example,DC=local'' = None \<and>
   extract_domain ''defaultNamingContext: DC=corp,DC=example,DC=local'' = Some ''corp''"
  by code_simp

end
